theory Spec2Isabelle
  imports Main "HOL-Library.Word"
begin

section \<open>Data model\<close>

text \<open>
  An \<open>Oid\<close> is PostgreSQL's unsigned 32-bit object identifier; \<open>InvalidOid\<close> is zero.
  A \<open>List *\<close> of Oids is a HOL list; \<open>NIL\<close> is the empty list.
\<close>

type_synonym Oid = "32 word"

definition InvalidOid :: Oid where
  "InvalidOid = 0"

text \<open>
  Modelled from the spec: the declarations of \<open>catalog/dependency.h\<close> and
  \<open>catalog/pg_depend.h\<close> are not among the sources. A dependency edge says "object X
  depends on object Y with kind K"; the resolver reads the dependent's identifier
  (\<open>objid\<close>), the referenced identifier (\<open>refobjid\<close>) and the kind (\<open>deptype\<close>), and only
  consults edges whose kind is extension membership (\<open>DEPENDENCY_EXTENSION\<close>).
\<close>

datatype DependencyType =
    DEPENDENCY_NORMAL
  | DEPENDENCY_AUTO
  | DEPENDENCY_INTERNAL
  | DEPENDENCY_EXTENSION
  | DEPENDENCY_PIN

record pg_depend =
  objid :: Oid
  refobjid :: Oid
  deptype :: DependencyType

text \<open>
  \<open>ShippableCacheKey\<close> is a struct whose only field is the Oid \<open>objid\<close>, four bytes
  in memory. The order of the bytes is the machine's: least significant byte first on a
  little-endian machine, most significant first on a big-endian one.
\<close>

type_synonym ShippableCacheKey = Oid

type_synonym byte = "8 word"

definition sizeof_ShippableCacheKey :: nat where
  "sizeof_ShippableCacheKey = 4"

definition sizeof_ShippableCacheEntry :: nat where
  "sizeof_ShippableCacheEntry = 8"

definition oid_bytes :: "bool \<Rightarrow> Oid \<Rightarrow> byte list" where
  "oid_bytes big_end x =
     (let little = [ucast x, ucast (drop_bit 8 x), ucast (drop_bit 16 x), ucast (drop_bit 24 x)]
      in if big_end then rev little else little)"

text \<open>
  \<open>ShippableCacheEntry\<close> is the key followed by the flag \<open>shippable\<close>. The key field of
  an entry in the table is written by the table only, which copies the caller's key
  there; \<open>key\<close> holds the bytes the table wrote.
\<close>

record ShippableCacheEntry =
  key :: "byte list"
  shippable :: bool

text \<open>
  Modelled from the spec: the hash table of \<open>utils/hsearch.h\<close> and \<open>utils/hash/dynahash.c\<close>
  (\<open>hash_create\<close>, \<open>hash_search\<close>, \<open>hash_seq_init\<close>, \<open>hash_seq_search\<close>) is not among the
  sources. The cache is "the full mapping" from ObjectId to the shippable flag; the model
  is the list of the table's entries, in the order in which a sequential scan enumerates
  them, together with what \<open>hash_create\<close> fixes about the keys: the key size given in
  \<open>HASHCTL\<close> with the flag \<open>HASH_ELEM\<close>, and the kind of key. A table created with
  \<open>HASH_BLOBS\<close> has binary keys: \<open>keysize\<close> bytes, copied with \<open>memcpy\<close> and compared with
  \<open>memcmp\<close>. A table created without it (and without a hash function of the caller's)
  has string keys: a key is the C string at the key pointer, cut to \<open>keysize - 1\<close>
  characters; it is hashed by \<open>string_hash\<close>, copied with \<open>strlcpy\<close> and compared with
  \<open>strncmp\<close> over \<open>keysize - 1\<close> characters.
\<close>

record HASHCTL =
  keysize :: nat
  entrysize :: nat

datatype hash_flag = HASH_ELEM | HASH_BLOBS

record HTAB =
  hkeysize :: nat
  string_keys :: bool
  elems :: "ShippableCacheEntry list"

text \<open>The two syscaches on which \<open>InitializeShippableCache\<close> registers the callback.\<close>

datatype SysCacheIdentifier = FOREIGNDATAWRAPPEROID | FOREIGNSERVEROID

text \<open>
  The errors the code raises with \<open>ereport(ERROR, ...)\<close> and \<open>elog(ERROR, ...)\<close>:
  \<^item> \<open>UnableToParseExtensionList raw\<close>: "unable to parse extension list" (syntax error);
  \<^item> \<open>ExtensionNotInstalled name\<close>: "the extension must be installed locally before it
    can be used on a remote server" (the spec's UnknownExtension);
  \<^item> \<open>HashTableCorrupted\<close>: "hash table corrupted";
  \<^item> \<open>NullHashTable\<close>: the callback run while \<open>ShippableCacheHash\<close> is still NULL (a
    crash in C; the callback is registered only once the table exists).
\<close>

datatype elog_error =
    UnableToParseExtensionList string
  | ExtensionNotInstalled string
  | HashTableCorrupted
  | NullHashTable

text \<open>
  The state of one backend process: the static variable \<open>ShippableCacheHash\<close> (\<open>None\<close> is
  NULL), the callbacks registered with \<open>CacheRegisterSyscacheCallback\<close>, and two counters
  that observe the dependency provider: \<open>nscans\<close> counts the scans of the dependency
  relation that were opened, \<open>nfetched\<close> the tuples those scans returned. \<open>big_endian\<close>
  is the byte order of the machine the backend runs on.
\<close>

record backend =
  ShippableCacheHash :: "HTAB option"
  syscache_callbacks :: "SysCacheIdentifier list"
  nscans :: nat
  nfetched :: nat
  big_endian :: bool

section \<open>List primitives\<close>

text \<open>
  Modelled from the spec: \<open>list_member_oid\<close> and \<open>lappend_oid\<close> of \<open>nodes/pg_list.h\<close> are
  not among the sources. Membership is "pure identity comparison on ExtensionId";
  appending puts the new identifier last, so that "insertion order is preserved".
\<close>

fun list_member_oid :: "Oid list \<Rightarrow> Oid \<Rightarrow> bool" where
  "list_member_oid [] datum = False"
| "list_member_oid (x # xs) datum = (if x = datum then True else list_member_oid xs datum)"

definition lappend_oid :: "Oid list \<Rightarrow> Oid \<Rightarrow> Oid list" where
  "lappend_oid xs datum = xs @ [datum]"

section \<open>Dependency resolver\<close>

text \<open>
  Modelled from the spec: the index scan of \<open>access/genam.h\<close> (\<open>systable_beginscan\<close>,
  \<open>systable_getnext\<close>) is not among the sources. With the single scan key
  \<open>objid = objnumber\<close> it yields "all DependencyEdges where the dependent side equals
  objectId", here in the order of the relation.
\<close>

definition systable_scan :: "pg_depend list \<Rightarrow> Oid \<Rightarrow> pg_depend list" where
  "systable_scan depRel objnumber = filter (\<lambda>tup. objid tup = objnumber) depRel"

text \<open>
  The \<open>while\<close> loop of \<open>lookup_shippable\<close> over the tuples the scan still has to return.
  The result is the final value of \<open>is_shippable\<close> and the number of tuples fetched.
\<close>

fun depend_loop :: "pg_depend list \<Rightarrow> Oid list \<Rightarrow> bool \<times> nat" where
  "depend_loop [] extension_list = (False, 0)"
| "depend_loop (foundDep # rest) extension_list =
     (if deptype foundDep = DEPENDENCY_EXTENSION
         \<and> list_member_oid extension_list (refobjid foundDep)
      then (True, 1)
      else (case depend_loop rest extension_list of (r, n) \<Rightarrow> (r, Suc n)))"

definition lookup_shippable ::
  "pg_depend list \<Rightarrow> Oid \<Rightarrow> Oid list \<Rightarrow> backend \<Rightarrow> bool \<times> backend" where
  "lookup_shippable depRel objnumber extension_list s =
     (if extension_list = [] then (False, s)
      else (case depend_loop (systable_scan depRel objnumber) extension_list of
              (r, n) \<Rightarrow> (r, s\<lparr>nscans := nscans s + 1, nfetched := nfetched s + n\<rparr>)))"

subsection \<open>The earlier resolver of contrib/postgres_fdw/shippable.c\<close>

text \<open>
  The inner \<open>foreach\<close> over the extension list: \<open>nresults\<close> is incremented for every cell
  equal to the tuple's \<open>refobjid\<close>. The counter is a C \<open>int\<close>; it is modelled as an
  unbounded integer, and \<open>nresults_loop_bound\<close> below shows that it never exceeds the
  length of the extension list, which a \<open>List\<close> keeps in an \<open>int\<close> itself.
\<close>

fun nresults_loop :: "Oid list \<Rightarrow> Oid \<Rightarrow> int \<Rightarrow> int" where
  "nresults_loop [] refid nresults = nresults"
| "nresults_loop (extension_oid # rest) refid nresults =
     nresults_loop rest refid (if refid = extension_oid then nresults + 1 else nresults)"

text \<open>
  The outer \<open>while\<close> loop, started with \<open>nresults = 0\<close>: it leaves after the first tuple
  that made the counter positive. The result is the final counter and the number of
  tuples fetched.
\<close>

fun depend_loop_v1 :: "pg_depend list \<Rightarrow> Oid list \<Rightarrow> int \<Rightarrow> int \<times> nat" where
  "depend_loop_v1 [] extension_list nresults = (nresults, 0)"
| "depend_loop_v1 (foundDep # rest) extension_list nresults =
     (let nresults' =
            (if deptype foundDep = DEPENDENCY_EXTENSION
             then nresults_loop extension_list (refobjid foundDep) nresults
             else nresults)
      in if nresults' > 0 then (nresults', 1)
         else (case depend_loop_v1 rest extension_list nresults' of
                 (r, n) \<Rightarrow> (r, Suc n)))"

definition lookup_shippable_v1 ::
  "pg_depend list \<Rightarrow> Oid \<Rightarrow> Oid list \<Rightarrow> backend \<Rightarrow> bool \<times> backend" where
  "lookup_shippable_v1 depRel objnumber extension_list s =
     (if extension_list = [] then (False, s)
      else (case depend_loop_v1 (systable_scan depRel objnumber) extension_list 0 of
              (nresults, n) \<Rightarrow>
                (nresults > 0, s\<lparr>nscans := nscans s + 1, nfetched := nfetched s + n\<rparr>)))"

section \<open>Shippability cache\<close>

text \<open>
  Modelled from the spec: the operations of the hash table (see \<open>HTAB\<close> above).
  \<open>hash_create\<close> gives the empty table and records the key size and the kind of key.
\<close>

definition hash_create :: "string \<Rightarrow> nat \<Rightarrow> HASHCTL \<Rightarrow> hash_flag list \<Rightarrow> HTAB" where
  "hash_create tabname nelem info flags =
     \<lparr>hkeysize = keysize info, string_keys = (HASH_BLOBS \<notin> set flags), elems = []\<rparr>"

text \<open>
  The C string at an address, cut to \<open>n\<close> characters: the bytes before the first zero
  byte among the first \<open>n\<close>.
\<close>

definition c_string :: "nat \<Rightarrow> byte list \<Rightarrow> byte list" where
  "c_string n mem = takeWhile (\<lambda>b. b \<noteq> 0) (take n mem)"

text \<open>
  The key of the table at a key pointer, where \<open>mem\<close> is the memory there: what the
  table hashes, copies into a new entry and compares. Two key pointers match when the
  keys there are equal.
\<close>

definition table_key :: "HTAB \<Rightarrow> byte list \<Rightarrow> byte list" where
  "table_key h mem =
     (if string_keys h then c_string (hkeysize h - 1) mem else take (hkeysize h) mem)"

text \<open>
  \<open>hash_search\<close> over the entries of the table; \<open>nk\<close> is \<open>table_key\<close> of the table.
  With \<open>HASH_FIND\<close> it returns the first entry whose key matches, or NULL (\<open>None\<close>). With
  \<open>HASH_ENTER\<close> it returns the matching entry, or a new one that holds a copy of the key
  (the flag of a new entry is not initialised by the table; the model puts \<open>False\<close> there
  until the caller assigns it). With \<open>HASH_REMOVE\<close> it takes the matching entry out, or
  returns NULL (\<open>None\<close>) when there is none.
\<close>

fun find_elem ::
  "(byte list \<Rightarrow> byte list) \<Rightarrow> ShippableCacheEntry list \<Rightarrow> byte list
     \<Rightarrow> ShippableCacheEntry option" where
  "find_elem nk [] keyPtr = None"
| "find_elem nk (e # es) keyPtr =
     (if nk (key e) = nk keyPtr then Some e else find_elem nk es keyPtr)"

fun enter_elem ::
  "(byte list \<Rightarrow> byte list) \<Rightarrow> ShippableCacheEntry list \<Rightarrow> byte list
     \<Rightarrow> ShippableCacheEntry list" where
  "enter_elem nk [] keyPtr = [\<lparr>key = nk keyPtr, shippable = False\<rparr>]"
| "enter_elem nk (e # es) keyPtr =
     (if nk (key e) = nk keyPtr then e # es else e # enter_elem nk es keyPtr)"

fun remove_elem ::
  "(byte list \<Rightarrow> byte list) \<Rightarrow> ShippableCacheEntry list \<Rightarrow> byte list
     \<Rightarrow> ShippableCacheEntry list option" where
  "remove_elem nk [] keyPtr = None"
| "remove_elem nk (e # es) keyPtr =
     (if nk (key e) = nk keyPtr then Some es
      else (case remove_elem nk es keyPtr of None \<Rightarrow> None | Some es' \<Rightarrow> Some (e # es')))"

definition hash_search_FIND :: "HTAB \<Rightarrow> byte list \<Rightarrow> ShippableCacheEntry option" where
  "hash_search_FIND h keyPtr = find_elem (table_key h) (elems h) keyPtr"

definition hash_search_ENTER :: "HTAB \<Rightarrow> byte list \<Rightarrow> HTAB" where
  "hash_search_ENTER h keyPtr = h\<lparr>elems := enter_elem (table_key h) (elems h) keyPtr\<rparr>"

definition hash_search_REMOVE :: "HTAB \<Rightarrow> byte list \<Rightarrow> HTAB option" where
  "hash_search_REMOVE h keyPtr =
     (case remove_elem (table_key h) (elems h) keyPtr of
        None \<Rightarrow> None
      | Some es \<Rightarrow> Some (h\<lparr>elems := es\<rparr>))"

text \<open>The entries a sequential scan (\<open>hash_seq_init\<close>, \<open>hash_seq_search\<close>) returns.\<close>

definition hash_seq_entries :: "HTAB \<Rightarrow> ShippableCacheEntry list" where
  "hash_seq_entries h = elems h"

text \<open>
  The assignment \<open>entry->shippable = v\<close> through the pointer \<open>hash_search\<close> returned for
  the key pointer \<open>keyPtr\<close>.
\<close>

fun set_elem ::
  "(byte list \<Rightarrow> byte list) \<Rightarrow> ShippableCacheEntry list \<Rightarrow> byte list \<Rightarrow> bool
     \<Rightarrow> ShippableCacheEntry list" where
  "set_elem nk [] keyPtr v = []"
| "set_elem nk (e # es) keyPtr v =
     (if nk (key e) = nk keyPtr then e\<lparr>shippable := v\<rparr> # es
      else e # set_elem nk es keyPtr v)"

definition set_shippable :: "HTAB \<Rightarrow> byte list \<Rightarrow> bool \<Rightarrow> HTAB" where
  "set_shippable h keyPtr v = h\<lparr>elems := set_elem (table_key h) (elems h) keyPtr v\<rparr>"

text \<open>
  The \<open>while\<close> loop of \<open>InvalidateShippableCacheCallback\<close>: the first argument holds the
  entries the sequential scan has still to return, the second the table. The key
  pointer of the removal is the address of the entry's key. A removal that returns NULL
  raises "hash table corrupted" and leaves the loop.
\<close>

fun flush_loop :: "ShippableCacheEntry list \<Rightarrow> HTAB \<Rightarrow> elog_error + HTAB" where
  "flush_loop [] h = Inr h"
| "flush_loop (entry # rest) h =
     (case hash_search_REMOVE h (key entry) of
        None \<Rightarrow> Inl HashTableCorrupted
      | Some h' \<Rightarrow> flush_loop rest h')"

text \<open>The callback ignores its three arguments (\<open>arg\<close>, \<open>cacheid\<close>, \<open>hashvalue\<close>).\<close>

definition InvalidateShippableCacheCallback :: "backend \<Rightarrow> elog_error + backend" where
  "InvalidateShippableCacheCallback s =
     (case ShippableCacheHash s of
        None \<Rightarrow> Inl NullHashTable
      | Some h \<Rightarrow>
          (case flush_loop (hash_seq_entries h) h of
             Inl e \<Rightarrow> Inl e
           | Inr h' \<Rightarrow> Inr (s\<lparr>ShippableCacheHash := Some h'\<rparr>)))"

text \<open>
  \<open>InitializeShippableCache\<close>: the table is created with the sizes of the key and of the
  entry and with the flag \<open>HASH_ELEM\<close> alone, so its keys are strings.
\<close>

definition InitializeShippableCache :: "backend \<Rightarrow> backend" where
  "InitializeShippableCache s =
     (let ctl = \<lparr>keysize = sizeof_ShippableCacheKey, entrysize = sizeof_ShippableCacheEntry\<rparr>
      in s\<lparr>ShippableCacheHash := Some (hash_create ''Shippable cache'' 256 ctl [HASH_ELEM]),
           syscache_callbacks :=
             syscache_callbacks s @ [FOREIGNDATAWRAPPEROID, FOREIGNSERVEROID]\<rparr>)"

text \<open>The table \<open>InitializeShippableCache\<close> creates, holding the given entries.\<close>

definition cache_table :: "ShippableCacheEntry list \<Rightarrow> HTAB" where
  "cache_table es =
     (hash_create ''Shippable cache'' 256
        \<lparr>keysize = sizeof_ShippableCacheKey, entrysize = sizeof_ShippableCacheEntry\<rparr>
        [HASH_ELEM])\<lparr>elems := es\<rparr>"

text \<open>
  Population on a miss: \<open>hash_search\<close> with \<open>HASH_ENTER\<close>, then the assignment of the flag
  to the entry returned.
\<close>

definition cache_populate :: "HTAB \<Rightarrow> byte list \<Rightarrow> bool \<Rightarrow> HTAB" where
  "cache_populate h keyPtr v = set_shippable (hash_search_ENTER h keyPtr) keyPtr v"

text \<open>
  \<open>is_shippable\<close>. The local \<open>key\<close> is zeroed and its \<open>objid\<close> set to \<open>objnumber\<close>, so the
  memory at \<open>&key\<close> is the four bytes of the Oid. After the initialisation the table
  exists, so the branch for a NULL table is never taken. The value returned on a miss is
  read back from the entry, as the final \<open>if (!entry)\<close> of the source does.
\<close>

definition is_shippable ::
  "pg_depend list \<Rightarrow> Oid \<Rightarrow> Oid list \<Rightarrow> backend \<Rightarrow> bool \<times> backend" where
  "is_shippable depRel objnumber extension_list s =
     (if extension_list = [] then (False, s)
      else
        let s1 = (if ShippableCacheHash s = None then InitializeShippableCache s else s);
            keyPtr = oid_bytes (big_endian s1) objnumber
        in (case ShippableCacheHash s1 of
              None \<Rightarrow> (False, s1)
            | Some h \<Rightarrow>
                (case hash_search_FIND h keyPtr of
                   Some entry \<Rightarrow> (shippable entry, s1)
                 | None \<Rightarrow>
                     (case lookup_shippable depRel objnumber extension_list s1 of
                        (shippable_val, s2) \<Rightarrow>
                          let h' = cache_populate h keyPtr shippable_val
                          in ((case hash_search_FIND h' keyPtr of
                                 None \<Rightarrow> False
                               | Some entry \<Rightarrow> shippable entry),
                              s2\<lparr>ShippableCacheHash := Some h'\<rparr>)))))"

text \<open>
  What a search of the cache for an object finds: \<open>None\<close> when there is no table or no
  matching entry, otherwise the flag of the entry.
\<close>

definition cache_lookup :: "backend \<Rightarrow> Oid \<Rightarrow> bool option" where
  "cache_lookup s objnumber =
     (case ShippableCacheHash s of
        None \<Rightarrow> None
      | Some h \<Rightarrow>
          map_option shippable (hash_search_FIND h (oid_bytes (big_endian s) objnumber)))"

text \<open>
  A sequence of calls of \<open>is_shippable\<close> by the planner, each with the dependency
  relation as it is at the time of the call; no invalidation in between.
\<close>

fun run_calls :: "(pg_depend list \<times> Oid \<times> Oid list) list \<Rightarrow> backend \<Rightarrow> backend" where
  "run_calls [] s = s"
| "run_calls ((depRel, objnumber, extension_list) # calls) s =
     run_calls calls (snd (is_shippable depRel objnumber extension_list s))"

section \<open>Extension declaration parser\<close>

text \<open>
  \<open>SplitIdentifierString\<close> (\<open>utils/varlena.c\<close>) and \<open>get_extension_oid\<close>
  (\<open>commands/extension.c\<close>) are not among the sources; \<open>extractExtensionList\<close> takes them
  as parameters: the splitter returns the tokens, or \<open>None\<close> for malformed syntax; the
  name lookup returns the extension's Oid, or \<open>InvalidOid\<close> when no such extension is
  installed (\<open>missing_ok\<close> is true).

  The argument \<open>extensionOids\<close> is a pointer to the caller's list, \<open>None\<close> when it is NULL
  (validation only). The function writes the list through the pointer while it runs, so
  the result is a pair: how the function left (an error raised, or the return value), and
  the caller's list at that moment.
\<close>

fun extension_loop ::
  "(string \<Rightarrow> Oid) \<Rightarrow> string list \<Rightarrow> Oid list option \<Rightarrow> (elog_error + unit) \<times> Oid list option" where
  "extension_loop get_extension_oid [] extensionOids = (Inr (), extensionOids)"
| "extension_loop get_extension_oid (extension_name # rest) extensionOids =
     (let extension_oid = get_extension_oid extension_name
      in if extension_oid = InvalidOid
         then (Inl (ExtensionNotInstalled extension_name), extensionOids)
         else (case extensionOids of
                 None \<Rightarrow> extension_loop get_extension_oid rest None
               | Some oids \<Rightarrow>
                   if \<not> list_member_oid oids extension_oid
                   then extension_loop get_extension_oid rest
                          (Some (lappend_oid oids extension_oid))
                   else extension_loop get_extension_oid rest (Some oids)))"

definition extractExtensionList ::
  "(string \<Rightarrow> string list option) \<Rightarrow> (string \<Rightarrow> Oid) \<Rightarrow> string \<Rightarrow> Oid list option
     \<Rightarrow> (elog_error + bool) \<times> Oid list option" where
  "extractExtensionList SplitIdentifierString get_extension_oid extensionString extensionOids =
     (case SplitIdentifierString extensionString of
        None \<Rightarrow> (Inl (UnableToParseExtensionList extensionString), extensionOids)
      | Some extlist \<Rightarrow>
          (case extension_loop get_extension_oid extlist extensionOids of
             (Inl e, out) \<Rightarrow> (Inl e, out)
           | (Inr u, out) \<Rightarrow> (Inr True, out)))"

text \<open>
  Modelled from the spec: a splitter for the examples. It "splits raw on commas into
  candidate identifier tokens"; an empty token is malformed syntax. Quoting and white
  space are left out.
\<close>

fun comma_fields :: "string \<Rightarrow> string list" where
  "comma_fields [] = [[]]"
| "comma_fields (c # cs) =
     (if c = CHR '','' then [] # comma_fields cs
      else (case comma_fields cs of
              [] \<Rightarrow> [[c]]
            | f # fs \<Rightarrow> (c # f) # fs))"

definition comma_split :: "string \<Rightarrow> string list option" where
  "comma_split raw =
     (let fields = comma_fields raw in if [] \<in> set fields then None else Some fields)"

text \<open>
  The spec's words for the parser's result: the identifiers "deduplicated while
  preserving first-seen order".
\<close>

fun first_seen :: "Oid list \<Rightarrow> Oid list" where
  "first_seen [] = []"
| "first_seen (x # xs) = x # filter (\<lambda>y. y \<noteq> x) (first_seen xs)"

text \<open>A tuple matches when it is an extension-membership edge into the declared set.\<close>

definition edge_matches :: "Oid list \<Rightarrow> pg_depend \<Rightarrow> bool" where
  "edge_matches extension_list tup \<longleftrightarrow>
     deptype tup = DEPENDENCY_EXTENSION \<and> list_member_oid extension_list (refobjid tup)"

section \<open>Example data\<close>

text \<open>
  A dependency relation: function 16400 depends on the type 11 and is a member of the
  extensions 16384 and 16385; function 16401 is a member of extension 16385 only.
\<close>

definition example_depend :: "pg_depend list" where
  "example_depend =
     [\<lparr>objid = 16400, refobjid = 11, deptype = DEPENDENCY_NORMAL\<rparr>,
      \<lparr>objid = 16401, refobjid = 16385, deptype = DEPENDENCY_EXTENSION\<rparr>,
      \<lparr>objid = 16400, refobjid = 16384, deptype = DEPENDENCY_EXTENSION\<rparr>,
      \<lparr>objid = 16400, refobjid = 16385, deptype = DEPENDENCY_EXTENSION\<rparr>]"

text \<open>
  Another one: function 16640 is a member of extension 16384; function 16896 depends on
  the type 11 and is a member of no extension.
\<close>

definition collision_depend :: "pg_depend list" where
  "collision_depend =
     [\<lparr>objid = 16640, refobjid = 16384, deptype = DEPENDENCY_EXTENSION\<rparr>,
      \<lparr>objid = 16896, refobjid = 11, deptype = DEPENDENCY_NORMAL\<rparr>]"

text \<open>A backend on a little-endian machine that has not used the cache yet.\<close>

definition fresh_backend :: backend where
  "fresh_backend =
     \<lparr>ShippableCacheHash = None, syscache_callbacks = [], nscans = 0, nfetched = 0,
       big_endian = False\<rparr>"

text \<open>
  A backend whose cache holds an answer for each of the two functions 16400 and 16401
  (the strings of the keys are the bytes 16, 64 and 17, 64).
\<close>

definition warm_backend :: backend where
  "warm_backend =
     \<lparr>ShippableCacheHash =
         Some (cache_table [\<lparr>key = [16, 64], shippable = True\<rparr>,
                            \<lparr>key = [17, 64], shippable = False\<rparr>]),
       syscache_callbacks = [FOREIGNDATAWRAPPEROID, FOREIGNSERVEROID],
       nscans = 2, nfetched = 3, big_endian = False\<rparr>"

text \<open>
  The backend, of either byte order, after the call of \<open>is_shippable\<close> for function
  16640 with the declared list \<open>[16384]\<close>: the first byte of the Oid is zero in
  either byte order, so the string of the key is empty.
\<close>

definition collided_backend :: "bool \<Rightarrow> backend" where
  "collided_backend big_end =
     \<lparr>ShippableCacheHash = Some (cache_table [\<lparr>key = [], shippable = True\<rparr>]),
       syscache_callbacks = [FOREIGNDATAWRAPPEROID, FOREIGNSERVEROID],
       nscans = 1, nfetched = 1, big_endian = big_end\<rparr>"

text \<open>The extensions installed locally: \<open>ext_a\<close> and \<open>ext_b\<close>.\<close>

definition installed_extensions :: "string \<Rightarrow> Oid" where
  "installed_extensions name =
     (if name = ''ext_a'' then 16384
      else if name = ''ext_b'' then 16385
      else InvalidOid)"

section \<open>Properties of the resolver\<close>

lemma list_member_oid_set: "list_member_oid xs x \<longleftrightarrow> x \<in> set xs"
  by (induction xs) auto

lemma depend_loop_result:
  "fst (depend_loop tups E) \<longleftrightarrow> (\<exists>tup \<in> set tups. edge_matches E tup)"
  by (induction tups) (auto simp: edge_matches_def split: prod.splits)

lemma depend_loop_fetched:
  "snd (depend_loop tups E) =
     (if \<exists>tup \<in> set tups. edge_matches E tup
      then Suc (length (takeWhile (\<lambda>tup. \<not> edge_matches E tup) tups))
      else length tups)"
  by (induction tups) (auto simp: edge_matches_def split: prod.splits)

lemma lookup_shippable_fst:
  "fst (lookup_shippable depRel obj E s) \<longleftrightarrow>
     (\<exists>tup \<in> set (systable_scan depRel obj). edge_matches E tup)"
  using depend_loop_result [of "systable_scan depRel obj" E]
  by (cases "depend_loop (systable_scan depRel obj) E")
     (auto simp: lookup_shippable_def edge_matches_def)

lemma lookup_shippable_state_indep:
  "fst (lookup_shippable depRel obj E s) = fst (lookup_shippable depRel obj E s')"
  by (simp add: lookup_shippable_fst)

lemma lookup_shippable_snd:
  "E \<noteq> [] \<Longrightarrow>
     ShippableCacheHash (snd (lookup_shippable depRel obj E s)) = ShippableCacheHash s
     \<and> syscache_callbacks (snd (lookup_shippable depRel obj E s)) = syscache_callbacks s
     \<and> nscans (snd (lookup_shippable depRel obj E s)) = nscans s + 1"
  by (simp add: lookup_shippable_def split: prod.splits)

text \<open>
  Claim C1. \<open>lookup_shippable\<close> returns true exactly when the dependency relation holds
  an edge whose dependent is the object, whose kind is extension membership and whose
  referenced identifier is in the declared list. The answer depends on the list only
  through its set of elements. On a declared list that is not empty, one scan is opened,
  and it fetches the tuples of the object up to and including the first matching one,
  or all of them when none matches.
\<close>

theorem lookup_shippable_iff:
  "(fst (lookup_shippable depRel obj E s) \<longleftrightarrow>
      (\<exists>tup \<in> set depRel. objid tup = obj \<and> deptype tup = DEPENDENCY_EXTENSION
                            \<and> refobjid tup \<in> set E))
   \<and> (set E = set E' \<longrightarrow>
        fst (lookup_shippable depRel obj E s) = fst (lookup_shippable depRel obj E' s))
   \<and> (E \<noteq> [] \<longrightarrow>
        nscans (snd (lookup_shippable depRel obj E s)) = nscans s + 1
        \<and> nfetched (snd (lookup_shippable depRel obj E s)) = nfetched s +
            (if \<exists>tup \<in> set (systable_scan depRel obj). edge_matches E tup
             then Suc (length (takeWhile (\<lambda>tup. \<not> edge_matches E tup)
                                 (systable_scan depRel obj)))
             else length (systable_scan depRel obj)))"
proof (intro conjI impI)
  show iff: "\<And>E. fst (lookup_shippable depRel obj E s) \<longleftrightarrow>
      (\<exists>tup \<in> set depRel. objid tup = obj \<and> deptype tup = DEPENDENCY_EXTENSION
                            \<and> refobjid tup \<in> set E)"
    by (auto simp: lookup_shippable_fst systable_scan_def edge_matches_def
          list_member_oid_set)
  show "fst (lookup_shippable depRel obj E s) = fst (lookup_shippable depRel obj E' s)"
    if "set E = set E'"
    using that by (simp add: iff)
  assume ne: "E \<noteq> []"
  show "nscans (snd (lookup_shippable depRel obj E s)) = nscans s + 1"
    using ne by (simp add: lookup_shippable_snd)
  show "nfetched (snd (lookup_shippable depRel obj E s)) = nfetched s +
            (if \<exists>tup \<in> set (systable_scan depRel obj). edge_matches E tup
             then Suc (length (takeWhile (\<lambda>tup. \<not> edge_matches E tup)
                                 (systable_scan depRel obj)))
             else length (systable_scan depRel obj))"
    using ne depend_loop_fetched [of "systable_scan depRel obj" E]
    by (cases "depend_loop (systable_scan depRel obj) E")
       (simp add: lookup_shippable_def)
qed

theorem lookup_shippable_iff_witness:
  "(\<exists>tup \<in> set example_depend. objid tup = 16400 \<and> deptype tup = DEPENDENCY_EXTENSION
                                   \<and> refobjid tup \<in> set [16385, 16384])
   \<and> fst (lookup_shippable example_depend 16400 [16385, 16384] fresh_backend)
   \<and> set [16385, 16384 :: Oid] = set [16384, 16385]
   \<and> fst (lookup_shippable example_depend 16400 [16384, 16385] fresh_backend)
   \<and> [16385, 16384 :: Oid] \<noteq> []
   \<and> nscans (snd (lookup_shippable example_depend 16400 [16385, 16384] fresh_backend)) = 1
   \<and> nfetched (snd (lookup_shippable example_depend 16400 [16385, 16384] fresh_backend)) = 2
   \<and> length (systable_scan example_depend 16400) = 3"
proof -
  note inst = lookup_shippable_iff
          [of example_depend 16400 "[16385, 16384]" fresh_backend "[16384, 16385]"]
  have edge: "\<exists>tup \<in> set example_depend. objid tup = 16400
                \<and> deptype tup = DEPENDENCY_EXTENSION \<and> refobjid tup \<in> set [16385, 16384]"
    by (simp add: example_depend_def)
  have sets: "set [16385, 16384 :: Oid] = set [16384, 16385]"
    by auto
  have scan: "systable_scan example_depend 16400 =
      [\<lparr>objid = 16400, refobjid = 11, deptype = DEPENDENCY_NORMAL\<rparr>,
       \<lparr>objid = 16400, refobjid = 16384, deptype = DEPENDENCY_EXTENSION\<rparr>,
       \<lparr>objid = 16400, refobjid = 16385, deptype = DEPENDENCY_EXTENSION\<rparr>]"
    by (simp add: example_depend_def systable_scan_def)
  have r1: "fst (lookup_shippable example_depend 16400 [16385, 16384] fresh_backend)"
    using inst edge by blast
  have r2: "fst (lookup_shippable example_depend 16400 [16384, 16385] fresh_backend)"
    using inst sets r1 by blast
  have r3: "nscans (snd (lookup_shippable example_depend 16400 [16385, 16384] fresh_backend)) = 1"
    using inst by (simp add: fresh_backend_def)
  have r4: "nfetched (snd (lookup_shippable example_depend 16400 [16385, 16384] fresh_backend)) = 2"
    using inst by (simp add: scan edge_matches_def fresh_backend_def)
  show ?thesis
    by (intro conjI edge sets r1 r2 r3 r4) (simp_all add: scan)
qed

subsection \<open>The two resolvers\<close>

lemma nresults_loop_count:
  "nresults_loop E r n = n + int (length (filter (\<lambda>x. x = r) E))"
  by (induction E arbitrary: n) auto

text \<open>
  The counter stays within the length of the extension list, so the \<open>int\<close> of the
  source cannot overflow.
\<close>

lemma nresults_loop_bound:
  "n \<le> nresults_loop E r n \<and> nresults_loop E r n \<le> n + int (length E)"
  by (simp add: nresults_loop_count)

lemma nresults_loop_pos:
  "0 < nresults_loop E r 0 \<longleftrightarrow> list_member_oid E r"
  by (auto simp add: nresults_loop_count list_member_oid_set filter_empty_conv)

lemma nresults_loop_zero:
  "\<not> list_member_oid E r \<Longrightarrow> nresults_loop E r 0 = 0"
  by (auto simp add: nresults_loop_count list_member_oid_set filter_empty_conv)

lemma depend_loop_v1_bound:
  "0 \<le> fst (depend_loop_v1 tups E 0) \<and> fst (depend_loop_v1 tups E 0) \<le> int (length E)"
proof (induction tups)
  case Nil
  show ?case by simp
next
  case (Cons tup tups)
  show ?case
  proof (cases "deptype tup = DEPENDENCY_EXTENSION \<and> list_member_oid E (refobjid tup)")
    case True
    then show ?thesis
      using nresults_loop_bound [of 0 E "refobjid tup"]
      by (simp add: nresults_loop_pos)
  next
    case False
    then have "(if deptype tup = DEPENDENCY_EXTENSION
                then nresults_loop E (refobjid tup) 0 else 0) = 0"
      by (auto simp: nresults_loop_zero)
    with Cons show ?thesis
      by (auto simp: Let_def split: prod.splits)
  qed
qed

lemma depend_loop_v1_eq:
  "(case depend_loop_v1 tups E 0 of (nresults, n) \<Rightarrow> (0 < nresults, n)) = depend_loop tups E"
proof (induction tups)
  case Nil
  show ?case by simp
next
  case (Cons tup tups)
  show ?case
  proof (cases "deptype tup = DEPENDENCY_EXTENSION \<and> list_member_oid E (refobjid tup)")
    case True
    then show ?thesis by (simp add: nresults_loop_pos)
  next
    case False
    then have "(if deptype tup = DEPENDENCY_EXTENSION
                then nresults_loop E (refobjid tup) 0 else 0) = 0"
      by (auto simp: nresults_loop_zero)
    with False Cons show ?thesis
      by (auto simp: Let_def split: prod.splits)
  qed
qed

text \<open>
  Claim C10. The earlier resolver, which counts the matches in \<open>nresults\<close>, and the later
  one, which asks \<open>list_member_oid\<close> and leaves at the first match, return the same
  boolean for every object, extension list and dependency relation; they also open and
  fetch the same.
\<close>

theorem lookup_shippable_v1_eq:
  "lookup_shippable_v1 depRel obj E s = lookup_shippable depRel obj E s"
  using depend_loop_v1_eq [of "systable_scan depRel obj" E]
  by (auto simp: lookup_shippable_v1_def lookup_shippable_def split: prod.splits)

section \<open>Properties of the cache\<close>

subsection \<open>Keys\<close>

lemma c_string_idem: "c_string n (c_string n mem) = c_string n mem"
proof -
  have "length (takeWhile (\<lambda>b. b \<noteq> 0) (take n mem)) \<le> n"
    using length_takeWhile_le [of "\<lambda>b. b \<noteq> 0" "take n mem"] by simp
  then show ?thesis
    by (simp add: c_string_def)
qed

lemma table_key_idem: "table_key h (table_key h mem) = table_key h mem"
  by (simp add: table_key_def c_string_idem)

lemma table_key_elems: "table_key (h\<lparr>elems := es\<rparr>) = table_key h"
  by (rule ext) (simp add: table_key_def)

subsection \<open>Searches over the entries\<close>

lemma find_elem_cong:
  "nk k' = nk k \<Longrightarrow> find_elem nk es k' = find_elem nk es k"
  by (induction es) auto

lemma find_enter_elem:
  assumes "\<And>m. nk (nk m) = nk m"
  shows "find_elem nk (enter_elem nk es k) k' =
     (if nk k' = nk k
      then (case find_elem nk es k of
              None \<Rightarrow> Some \<lparr>key = nk k, shippable = False\<rparr>
            | Some e \<Rightarrow> Some e)
      else find_elem nk es k')"
  using assms by (induction es) auto

lemma find_set_elem:
  "find_elem nk (set_elem nk es k v) k' =
     (if nk k' = nk k then map_option (\<lambda>e. e\<lparr>shippable := v\<rparr>) (find_elem nk es k)
      else find_elem nk es k')"
  by (induction es) auto

lemma set_elem_idem:
  "set_elem nk (set_elem nk es k v) k v = set_elem nk es k v"
  by (induction es) auto

lemma enter_elem_found:
  "find_elem nk es k \<noteq> None \<Longrightarrow> enter_elem nk es k = es"
  by (induction es) auto

lemma remove_elem_None:
  "remove_elem nk es k = None \<longleftrightarrow> find_elem nk es k = None"
  by (induction es) (auto split: option.splits)

lemma remove_elem_filter:
  "distinct (map (\<lambda>e. nk (key e)) es) \<Longrightarrow> find_elem nk es k \<noteq> None \<Longrightarrow>
     remove_elem nk es k = Some (filter (\<lambda>e. nk (key e) \<noteq> nk k) es)"
proof (induction es)
  case Nil then show ?case by simp
next
  case (Cons e es)
  show ?case
  proof (cases "nk (key e) = nk k")
    case True
    with Cons.prems have "nk k \<notin> (\<lambda>e. nk (key e)) ` set es" by simp
    then have "\<forall>x \<in> set es. nk (key x) \<noteq> nk k" by (metis imageI)
    then have "filter (\<lambda>e. nk (key e) \<noteq> nk k) es = es" by (simp add: filter_id_conv)
    with True show ?thesis by simp
  next
    case False
    with Cons show ?thesis by auto
  qed
qed

lemma find_elem_filter:
  "find_elem nk (filter (\<lambda>e. nk (key e) \<noteq> nk k) es) k' =
     (if nk k' = nk k then None else find_elem nk es k')"
  by (induction es) auto

subsection \<open>Searches of the table\<close>

lemma REMOVE_None: "hash_search_REMOVE h k = None \<longleftrightarrow> hash_search_FIND h k = None"
  by (simp add: hash_search_REMOVE_def hash_search_FIND_def remove_elem_None [symmetric]
        split: option.splits)

lemma cache_populate_elems:
  "cache_populate h k v =
     h\<lparr>elems := set_elem (table_key h) (enter_elem (table_key h) (elems h) k) k v\<rparr>"
  by (simp add: cache_populate_def set_shippable_def hash_search_ENTER_def table_key_elems)

lemma FIND_populate:
  "map_option shippable (hash_search_FIND (cache_populate h k v) k') =
     (if table_key h k' = table_key h k then Some v
      else map_option shippable (hash_search_FIND h k'))"
  by (auto simp: cache_populate_elems find_set_elem table_key_elems
        find_enter_elem [of "table_key h", OF table_key_idem] hash_search_FIND_def
        split: option.splits)

lemma FIND_populate_same:
  "\<exists>e. hash_search_FIND (cache_populate h k v) k = Some e \<and> shippable e = v"
  using FIND_populate [of h k v k] by auto

lemma cache_populate_idem:
  "cache_populate (cache_populate h k v) k v = cache_populate h k v"
proof -
  let ?nk = "table_key h"
  let ?es = "set_elem ?nk (enter_elem ?nk (elems h) k) k v"
  have "find_elem ?nk ?es k \<noteq> None"
    using FIND_populate_same [of h k v]
    by (auto simp: cache_populate_elems hash_search_FIND_def table_key_elems)
  then have "enter_elem ?nk ?es k = ?es"
    by (rule enter_elem_found)
  then show ?thesis
    by (simp add: cache_populate_elems table_key_elems set_elem_idem)
qed

subsection \<open>The flush\<close>

lemma flush_loop_append:
  "flush_loop (pre @ post) h =
     (case flush_loop pre h of Inl e \<Rightarrow> Inl e | Inr h' \<Rightarrow> flush_loop post h')"
  by (induction pre arbitrary: h) (auto split: option.splits)

lemma flush_loop_self: "flush_loop (elems h) h = Inr (h\<lparr>elems := []\<rparr>)"
proof -
  have "elems h = es \<Longrightarrow> flush_loop es h = Inr (h\<lparr>elems := []\<rparr>)" for es
  proof (induction es arbitrary: h)
    case Nil
    then show ?case by simp
  next
    case (Cons e es)
    have "flush_loop es (h\<lparr>elems := es\<rparr>) = Inr (h\<lparr>elems := es\<rparr>\<lparr>elems := []\<rparr>)"
      by (rule Cons.IH) simp
    then show ?case
      using Cons.prems by (simp add: hash_search_REMOVE_def)
  qed
  then show ?thesis by simp
qed

lemma flush_loop_wf:
  "distinct (map (\<lambda>e. table_key h (key e)) (elems h)) \<Longrightarrow>
   distinct (map (\<lambda>e. table_key h (key e)) es) \<Longrightarrow>
   \<forall>e \<in> set es. hash_search_FIND h (key e) \<noteq> None \<Longrightarrow>
     flush_loop es h =
       Inr (h\<lparr>elems := filter (\<lambda>x. table_key h (key x) \<notin> (\<lambda>e. table_key h (key e)) ` set es)
                         (elems h)\<rparr>)"
proof (induction es arbitrary: h)
  case Nil then show ?case by simp
next
  case (Cons e es)
  let ?nk = "table_key h"
  let ?h' = "h\<lparr>elems := filter (\<lambda>x. ?nk (key x) \<noteq> ?nk (key e)) (elems h)\<rparr>"
  have nk': "table_key ?h' = ?nk"
    by (rule table_key_elems)
  have found: "find_elem ?nk (elems h) (key e) \<noteq> None"
    using Cons.prems(3) by (simp add: hash_search_FIND_def)
  have rem: "hash_search_REMOVE h (key e) = Some ?h'"
    using Cons.prems(1) found by (simp add: hash_search_REMOVE_def remove_elem_filter)
  have d: "distinct (map (\<lambda>e. table_key ?h' (key e)) (elems ?h'))"
    using Cons.prems(1) by (simp add: nk' distinct_map_filter)
  have d2: "distinct (map (\<lambda>e. table_key ?h' (key e)) es)"
    using Cons.prems(2) by (simp add: nk')
  have "?nk (key e) \<notin> (\<lambda>e. ?nk (key e)) ` set es"
    using Cons.prems(2) by simp
  then have ne: "\<forall>x \<in> set es. ?nk (key x) \<noteq> ?nk (key e)" by (metis imageI)
  have pres: "\<forall>x \<in> set es. hash_search_FIND ?h' (key x) \<noteq> None"
    using Cons.prems(3) ne
    by (simp add: find_elem_filter hash_search_FIND_def table_key_elems)
  have "flush_loop es ?h' =
          Inr (?h'\<lparr>elems := filter (\<lambda>x. ?nk (key x) \<notin> (\<lambda>e. ?nk (key e)) ` set es)
                              (elems ?h')\<rparr>)"
    using Cons.IH [OF d d2 pres] by (simp add: nk')
  moreover have "filter (\<lambda>x. ?nk (key x) \<notin> (\<lambda>e. ?nk (key e)) ` set es) (elems ?h')
                 = filter (\<lambda>x. ?nk (key x) \<notin> (\<lambda>e. ?nk (key e)) ` set (e # es)) (elems h)"
    by (auto intro: filter_cong)
  ultimately show ?case using rem by simp
qed

lemma Invalidate_table:
  "ShippableCacheHash s = Some h \<Longrightarrow>
     InvalidateShippableCacheCallback s = Inr (s\<lparr>ShippableCacheHash := Some (h\<lparr>elems := []\<rparr>)\<rparr>)"
  by (simp add: InvalidateShippableCacheCallback_def hash_seq_entries_def flush_loop_self)

subsection \<open>Hits and misses\<close>

lemma lookup_shippable_big_endian:
  "big_endian (snd (lookup_shippable depRel obj E s)) = big_endian s"
  by (simp add: lookup_shippable_def split: prod.splits)

lemma is_shippable_hit:
  assumes "E \<noteq> []" "cache_lookup s obj = Some b"
  shows "is_shippable depRel obj E s = (b, s)"
  using assms
  by (auto simp: is_shippable_def cache_lookup_def Let_def split: option.splits)

lemma is_shippable_miss_table:
  assumes "E \<noteq> []" "ShippableCacheHash s = Some h"
    and "hash_search_FIND h (oid_bytes (big_endian s) obj) = None"
  shows "is_shippable depRel obj E s =
           (fst (lookup_shippable depRel obj E s),
            (snd (lookup_shippable depRel obj E s))
              \<lparr>ShippableCacheHash :=
                 Some (cache_populate h (oid_bytes (big_endian s) obj)
                         (fst (lookup_shippable depRel obj E s)))\<rparr>)"
proof -
  obtain e where e: "hash_search_FIND
      (cache_populate h (oid_bytes (big_endian s) obj)
         (fst (lookup_shippable depRel obj E s))) (oid_bytes (big_endian s) obj) = Some e"
      "shippable e = fst (lookup_shippable depRel obj E s)"
    using FIND_populate_same by blast
  show ?thesis
    using assms e
    by (cases "lookup_shippable depRel obj E s") (simp add: is_shippable_def Let_def)
qed

lemma is_shippable_uninit:
  assumes "E \<noteq> []" "ShippableCacheHash s = None"
  shows "is_shippable depRel obj E s = is_shippable depRel obj E (InitializeShippableCache s)"
  using assms by (simp add: is_shippable_def Let_def InitializeShippableCache_def)

lemma is_shippable_miss:
  assumes "E \<noteq> []" "cache_lookup s obj = None"
  shows "fst (is_shippable depRel obj E s) = fst (lookup_shippable depRel obj E s)"
    and "cache_lookup (snd (is_shippable depRel obj E s)) obj
           = Some (fst (lookup_shippable depRel obj E s))"
    and "nscans (snd (is_shippable depRel obj E s)) = nscans s + 1"
proof -
  define s1 where "s1 = (if ShippableCacheHash s = None then InitializeShippableCache s else s)"
  have eq: "is_shippable depRel obj E s = is_shippable depRel obj E s1"
    using assms(1) by (simp add: s1_def is_shippable_uninit)
  have be: "big_endian s1 = big_endian s"
    by (simp add: s1_def InitializeShippableCache_def)
  obtain h where h: "ShippableCacheHash s1 = Some h"
      "hash_search_FIND h (oid_bytes (big_endian s1) obj) = None"
    using assms(2)
    by (auto simp: s1_def cache_lookup_def InitializeShippableCache_def hash_create_def
          hash_search_FIND_def split: option.splits)
  have n: "nscans s1 = nscans s"
    by (simp add: s1_def InitializeShippableCache_def)
  have l: "fst (lookup_shippable depRel obj E s1) = fst (lookup_shippable depRel obj E s)"
    by (rule lookup_shippable_state_indep)
  note m = is_shippable_miss_table [OF assms(1) h, of depRel]
  show "fst (is_shippable depRel obj E s) = fst (lookup_shippable depRel obj E s)"
    by (simp add: eq m l)
  show "cache_lookup (snd (is_shippable depRel obj E s)) obj
           = Some (fst (lookup_shippable depRel obj E s))"
    by (simp add: eq m l cache_lookup_def FIND_populate lookup_shippable_big_endian)
  show "nscans (snd (is_shippable depRel obj E s)) = nscans s + 1"
    using lookup_shippable_snd [OF assms(1), of depRel obj s1]
    by (simp add: eq m n)
qed

lemma is_shippable_keeps:
  assumes "cache_lookup s obj = Some b"
  shows "cache_lookup (snd (is_shippable depRel obj' E s)) obj = Some b"
proof (cases "E = []")
  case True
  then show ?thesis using assms by (simp add: is_shippable_def)
next
  case False
  obtain h where h: "ShippableCacheHash s = Some h"
    using assms by (auto simp: cache_lookup_def split: option.splits)
  show ?thesis
  proof (cases "hash_search_FIND h (oid_bytes (big_endian s) obj')")
    case None
    then have "table_key h (oid_bytes (big_endian s) obj)
                 \<noteq> table_key h (oid_bytes (big_endian s) obj')"
      using assms h find_elem_cong [of "table_key h" "oid_bytes (big_endian s) obj"
          "oid_bytes (big_endian s) obj'" "elems h"]
      by (auto simp: cache_lookup_def hash_search_FIND_def)
    then show ?thesis
      using assms h
      by (simp add: is_shippable_miss_table [OF False h None] cache_lookup_def FIND_populate
            lookup_shippable_big_endian)
  next
    case (Some e)
    then have "cache_lookup s obj' = Some (shippable e)"
      using h by (simp add: cache_lookup_def)
    then show ?thesis
      using assms by (simp add: is_shippable_hit [OF False])
  qed
qed

lemma run_calls_keeps:
  "cache_lookup s obj = Some b \<Longrightarrow> cache_lookup (run_calls calls s) obj = Some b"
proof (induction calls arbitrary: s)
  case Nil then show ?case by simp
next
  case (Cons c calls)
  obtain d obj' E where c: "c = (d, obj', E)" by (cases c)
  show ?case
    using Cons.IH [OF is_shippable_keeps [OF Cons.prems, of d obj' E]]
    by (simp add: c)
qed

subsection \<open>The table of the cache\<close>

lemma InitializeShippableCache_table:
  "ShippableCacheHash (InitializeShippableCache s) = Some (cache_table [])"
  by (simp add: InitializeShippableCache_def cache_table_def hash_create_def Let_def)

lemma cache_table_flushed: "(cache_table es)\<lparr>elems := []\<rparr> = cache_table []"
  by (simp add: cache_table_def)

lemma cache_populate_table:
  "\<exists>es'. cache_populate (cache_table es) k v = cache_table es'"
  by (auto simp: cache_populate_elems cache_table_def)

text \<open>
  The table of a backend is always the one \<open>InitializeShippableCache\<close> creates, with some
  entries: \<open>is_shippable\<close> keeps this.
\<close>

lemma is_shippable_table:
  assumes "ShippableCacheHash s = None \<or> (\<exists>es. ShippableCacheHash s = Some (cache_table es))"
  shows "ShippableCacheHash (snd (is_shippable depRel obj E s)) = ShippableCacheHash s
         \<or> (\<exists>es. ShippableCacheHash (snd (is_shippable depRel obj E s)) = Some (cache_table es))"
proof (cases "E = []")
  case True
  then show ?thesis by (simp add: is_shippable_def)
next
  case False
  define s1 where "s1 = (if ShippableCacheHash s = None then InitializeShippableCache s else s)"
  have eq: "is_shippable depRel obj E s = is_shippable depRel obj E s1"
    using False by (simp add: s1_def is_shippable_uninit)
  obtain es where es: "ShippableCacheHash s1 = Some (cache_table es)"
    using assms by (auto simp: s1_def InitializeShippableCache_table)
  show ?thesis
  proof (cases "hash_search_FIND (cache_table es) (oid_bytes (big_endian s1) obj)")
    case None
    show ?thesis
      using cache_populate_table [of es]
      by (simp add: eq is_shippable_miss_table [OF False es None])
  next
    case (Some e)
    then have "cache_lookup s1 obj = Some (shippable e)"
      using es by (simp add: cache_lookup_def)
    then show ?thesis
      using es by (auto simp: eq is_shippable_hit [OF False])
  qed
qed

subsection \<open>The cache on the example data\<close>

lemmas cache_eval =
  is_shippable_def InitializeShippableCache_def hash_create_def cache_table_def
  lookup_shippable_def systable_scan_def cache_populate_def Let_def hash_search_FIND_def
  hash_search_ENTER_def set_shippable_def table_key_def c_string_def oid_bytes_def
  sizeof_ShippableCacheKey_def

lemma first_call_example:
  "is_shippable example_depend 16400 [16384] fresh_backend =
     (True,
      \<lparr>ShippableCacheHash = Some (cache_table [\<lparr>key = [16, 64], shippable = True\<rparr>]),
        syscache_callbacks = [FOREIGNDATAWRAPPEROID, FOREIGNSERVEROID],
        nscans = 1, nfetched = 2, big_endian = False\<rparr>)"
  by (simp add: cache_eval fresh_backend_def example_depend_def)

lemma second_call_example:
  "is_shippable example_depend 16401 [16384]
     \<lparr>ShippableCacheHash = Some (cache_table [\<lparr>key = [16, 64], shippable = True\<rparr>]),
       syscache_callbacks = [FOREIGNDATAWRAPPEROID, FOREIGNSERVEROID],
       nscans = 1, nfetched = 2, big_endian = False\<rparr> = (False, warm_backend)"
  by (simp add: cache_eval warm_backend_def example_depend_def)

lemma resolver_example:
  "fst (lookup_shippable example_depend 16401 [16385] s)"
  by (simp add: lookup_shippable_def systable_scan_def example_depend_def)

subsection \<open>Memoization after a miss\<close>

text \<open>
  When the search of the cache for the object finds no entry, the call of \<open>is_shippable\<close>
  with a declared list that is not empty returns the resolver's answer, opens exactly
  one scan and stores the answer; after any further calls without an invalidation, a call
  for the same object returns that answer and leaves the backend unchanged.
\<close>

lemma memoized_after_miss:
  assumes "E \<noteq> []" and "cache_lookup s obj = None" and "E' \<noteq> []"
  shows "fst (is_shippable depRel obj E s) = fst (lookup_shippable depRel obj E s)
         \<and> nscans (snd (is_shippable depRel obj E s)) = nscans s + 1
         \<and> cache_lookup (snd (is_shippable depRel obj E s)) obj
             = Some (fst (is_shippable depRel obj E s))
         \<and> is_shippable depRel' obj E' (run_calls calls (snd (is_shippable depRel obj E s)))
             = (fst (is_shippable depRel obj E s),
                run_calls calls (snd (is_shippable depRel obj E s)))"
proof -
  note miss = is_shippable_miss [OF assms(1,2), of depRel]
  have stored: "cache_lookup (snd (is_shippable depRel obj E s)) obj
                  = Some (fst (is_shippable depRel obj E s))"
    by (simp add: miss)
  have "cache_lookup (run_calls calls (snd (is_shippable depRel obj E s))) obj
          = Some (fst (is_shippable depRel obj E s))"
    using stored by (rule run_calls_keeps)
  then have "is_shippable depRel' obj E' (run_calls calls (snd (is_shippable depRel obj E s)))
             = (fst (is_shippable depRel obj E s),
                run_calls calls (snd (is_shippable depRel obj E s)))"
    by (rule is_shippable_hit [OF assms(3)])
  then show ?thesis
    using miss stored by simp
qed

subsection \<open>Claims about the cache\<close>

text \<open>
  Claim C2. With an empty declared list \<open>is_shippable\<close> returns false and leaves the
  backend as it was: the cache is not created, no entry is added, and no scan of the
  dependency relation is opened. \<open>lookup_shippable\<close> does the same.
\<close>

theorem is_shippable_empty:
  "is_shippable depRel obj [] s = (False, s) \<and> lookup_shippable depRel obj [] s = (False, s)"
  by (simp add: is_shippable_def lookup_shippable_def)

text \<open>
  Claim C3 says that the first call of \<open>is_shippable\<close> for an object, with a declared
  list that is not empty, opens exactly one scan and stores the resolver's answer under
  the object. The code does not do so for every object. The table is created with
  \<open>HASH_ELEM\<close> alone, so it compares the keys as strings, and the Oids 16640 and 16896
  both begin with a zero byte in either byte order. After the call for function 16640,
  which is a member of the declared extension, the first call for function 16896, which
  is a member of no extension, finds the entry of 16640: it returns true, where the
  resolver answers false, and leaves the backend unchanged, so it opens no scan and
  stores nothing.
\<close>

theorem first_call_finds_other_object:
  "is_shippable collision_depend 16640 [16384] (fresh_backend\<lparr>big_endian := be\<rparr>)
     = (True, collided_backend be)
   \<and> cache_lookup (fresh_backend\<lparr>big_endian := be\<rparr>) 16896 = None
   \<and> \<not> fst (lookup_shippable collision_depend 16896 [16384] (collided_backend be))
   \<and> is_shippable collision_depend 16896 [16384] (collided_backend be)
       = (True, collided_backend be)
   \<and> nscans (snd (is_shippable collision_depend 16896 [16384] (collided_backend be)))
       = nscans (collided_backend be)"
  by (simp add: cache_eval fresh_backend_def collision_depend_def collided_backend_def
        cache_lookup_def)


text \<open>
  Claim C4. The invalidation callback removes every entry: the table is afterwards the
  one \<open>InitializeShippableCache\<close> creates, still present, and nothing else of the backend
  changes. The next call of \<open>is_shippable\<close> with a declared list that is not empty
  returns the resolver's answer and opens exactly one scan, whatever was cached before.
\<close>

theorem invalidate_then_fresh_scan:
  assumes "ShippableCacheHash s = Some h" and "E \<noteq> []"
    and "s' = s\<lparr>ShippableCacheHash := Some (h\<lparr>elems := []\<rparr>)\<rparr>"
  shows "InvalidateShippableCacheCallback s = Inr s'
         \<and> map_option elems (ShippableCacheHash s')
             = map_option elems (ShippableCacheHash (InitializeShippableCache s0))
         \<and> (h = cache_table es \<longrightarrow>
               ShippableCacheHash s' = ShippableCacheHash (InitializeShippableCache s0))
         \<and> ShippableCacheHash s' \<noteq> None
         \<and> cache_lookup s' obj = None
         \<and> fst (is_shippable depRel obj E s') = fst (lookup_shippable depRel obj E s')
         \<and> nscans (snd (is_shippable depRel obj E s')) = nscans s' + 1"
proof -
  have empty: "cache_lookup s' obj = None"
    by (simp add: assms(3) cache_lookup_def hash_search_FIND_def)
  show ?thesis
    using Invalidate_table [OF assms(1)] is_shippable_miss [OF assms(2) empty, of depRel] empty
    by (simp add: assms(3) InitializeShippableCache_table cache_table_def)
qed

theorem invalidate_then_fresh_scan_witness:
  "ShippableCacheHash warm_backend
     = Some (cache_table [\<lparr>key = [16, 64], shippable = True\<rparr>,
                          \<lparr>key = [17, 64], shippable = False\<rparr>])
   \<and> [16385 :: Oid] \<noteq> []
   \<and> cache_lookup warm_backend 16401 = Some False
   \<and> InvalidateShippableCacheCallback warm_backend
       = Inr (warm_backend\<lparr>ShippableCacheHash := Some (cache_table [])\<rparr>)
   \<and> ShippableCacheHash (warm_backend\<lparr>ShippableCacheHash := Some (cache_table [])\<rparr>)
       = ShippableCacheHash (InitializeShippableCache fresh_backend)
   \<and> fst (is_shippable example_depend 16401 [16385]
            (warm_backend\<lparr>ShippableCacheHash := Some (cache_table [])\<rparr>))
   \<and> nscans (snd (is_shippable example_depend 16401 [16385]
            (warm_backend\<lparr>ShippableCacheHash := Some (cache_table [])\<rparr>))) = 3"
proof -
  let ?es = "[\<lparr>key = [16, 64], shippable = True\<rparr>, \<lparr>key = [17, 64], shippable = False\<rparr>]"
  let ?s' = "warm_backend\<lparr>ShippableCacheHash := Some (cache_table [])\<rparr>"
  have h1: "ShippableCacheHash warm_backend = Some (cache_table ?es)"
    by (simp add: warm_backend_def)
  have h2: "[16385 :: Oid] \<noteq> []" by simp
  have h3: "?s' = warm_backend\<lparr>ShippableCacheHash := Some ((cache_table ?es)\<lparr>elems := []\<rparr>)\<rparr>"
    by (simp add: cache_table_flushed)
  note inst = invalidate_then_fresh_scan
      [OF h1 h2 h3, of fresh_backend ?es 16401 example_depend]
  have c: "cache_lookup warm_backend 16401 = Some False"
    by (simp add: cache_lookup_def warm_backend_def cache_eval)
  have r1: "InvalidateShippableCacheCallback warm_backend = Inr ?s'"
    using inst by blast
  have r2: "ShippableCacheHash ?s' = ShippableCacheHash (InitializeShippableCache fresh_backend)"
    using inst by blast
  have "fst (is_shippable example_depend 16401 [16385] ?s')
        = fst (lookup_shippable example_depend 16401 [16385] ?s')"
    using inst by blast
  then have r3: "fst (is_shippable example_depend 16401 [16385] ?s')"
    by (simp add: resolver_example)
  have "nscans (snd (is_shippable example_depend 16401 [16385] ?s')) = nscans ?s' + 1"
    using inst by blast
  then have r4: "nscans (snd (is_shippable example_depend 16401 [16385] ?s')) = 3"
    by (simp add: warm_backend_def)
  show ?thesis
    by (intro conjI h1 h2 c r1 r2 r3 r4)
qed

text \<open>
  Claim C8. Populating the entry of an object with a flag twice gives the same table as
  populating it once, for every table; and running the invalidation callback on its own
  result gives that result again, the table without entries.
\<close>

theorem cache_mutations_idempotent:
  "cache_populate (cache_populate h (oid_bytes be obj) b) (oid_bytes be obj) b
     = cache_populate h (oid_bytes be obj) b
   \<and> (ShippableCacheHash s = Some h \<longrightarrow>
        (\<exists>s'. InvalidateShippableCacheCallback s = Inr s'
              \<and> InvalidateShippableCacheCallback s' = Inr s'
              \<and> ShippableCacheHash s' = Some (h\<lparr>elems := []\<rparr>)))"
proof (intro conjI impI)
  show "cache_populate (cache_populate h (oid_bytes be obj) b) (oid_bytes be obj) b
          = cache_populate h (oid_bytes be obj) b"
    by (rule cache_populate_idem)
  assume h: "ShippableCacheHash s = Some h"
  let ?s' = "s\<lparr>ShippableCacheHash := Some (h\<lparr>elems := []\<rparr>)\<rparr>"
  have "InvalidateShippableCacheCallback s = Inr ?s'"
    using h by (rule Invalidate_table)
  moreover have "InvalidateShippableCacheCallback ?s' = Inr ?s'"
    using Invalidate_table [of ?s' "h\<lparr>elems := []\<rparr>"] by simp
  moreover have "ShippableCacheHash ?s' = Some (h\<lparr>elems := []\<rparr>)"
    by simp
  ultimately show "\<exists>s'. InvalidateShippableCacheCallback s = Inr s'
              \<and> InvalidateShippableCacheCallback s' = Inr s'
              \<and> ShippableCacheHash s' = Some (h\<lparr>elems := []\<rparr>)"
    by blast
qed

theorem cache_mutations_idempotent_witness:
  "cache_populate (cache_populate (cache_table [\<lparr>key = [16, 64], shippable = True\<rparr>])
       (oid_bytes False 16401) True) (oid_bytes False 16401) True
     = cache_table [\<lparr>key = [16, 64], shippable = True\<rparr>, \<lparr>key = [17, 64], shippable = True\<rparr>]
   \<and> ShippableCacheHash warm_backend
       = Some (cache_table [\<lparr>key = [16, 64], shippable = True\<rparr>,
                            \<lparr>key = [17, 64], shippable = False\<rparr>])
   \<and> (\<exists>s'. InvalidateShippableCacheCallback warm_backend = Inr s'
            \<and> InvalidateShippableCacheCallback s' = Inr s'
            \<and> ShippableCacheHash s' = Some (cache_table []))"
proof -
  let ?es = "[\<lparr>key = [16, 64], shippable = True\<rparr>, \<lparr>key = [17, 64], shippable = False\<rparr>]"
  note inst1 = cache_mutations_idempotent
      [of "cache_table [\<lparr>key = [16, 64], shippable = True\<rparr>]" False 16401 True fresh_backend]
  note inst2 = cache_mutations_idempotent [of "cache_table ?es" False 16401 True warm_backend]
  have once: "cache_populate (cache_table [\<lparr>key = [16, 64], shippable = True\<rparr>])
                (oid_bytes False 16401) True
     = cache_table [\<lparr>key = [16, 64], shippable = True\<rparr>, \<lparr>key = [17, 64], shippable = True\<rparr>]"
    by (simp add: cache_eval)
  have h: "ShippableCacheHash warm_backend = Some (cache_table ?es)"
    by (simp add: warm_backend_def)
  have r1: "cache_populate (cache_populate (cache_table [\<lparr>key = [16, 64], shippable = True\<rparr>])
       (oid_bytes False 16401) True) (oid_bytes False 16401) True
     = cache_table [\<lparr>key = [16, 64], shippable = True\<rparr>, \<lparr>key = [17, 64], shippable = True\<rparr>]"
    using inst1 once by simp
  have "\<exists>s'. InvalidateShippableCacheCallback warm_backend = Inr s'
            \<and> InvalidateShippableCacheCallback s' = Inr s'
            \<and> ShippableCacheHash s' = Some ((cache_table ?es)\<lparr>elems := []\<rparr>)"
    using inst2 h by blast
  then have r2: "\<exists>s'. InvalidateShippableCacheCallback warm_backend = Inr s'
            \<and> InvalidateShippableCacheCallback s' = Inr s'
            \<and> ShippableCacheHash s' = Some (cache_table [])"
    by (simp only: cache_table_flushed)
  show ?thesis
    by (intro conjI h r1 r2)
qed

text \<open>
  Claim C9. In the flush, when the entry the scan returned cannot be found, the removal
  fails and "hash table corrupted" is raised at once, whatever entries the scan would
  still return. When the table holds one entry for each key and every enumerated key is
  present in it, the error is not raised and the flush removes every enumerated entry;
  the callback, which enumerates the table itself, always completes and leaves the table
  without entries.
\<close>

theorem flush_consistency_check:
  "(flush_loop pre h = Inr h' \<and> hash_search_FIND h' (key entry) = None \<longrightarrow>
      hash_search_REMOVE h' (key entry) = None
      \<and> flush_loop (pre @ entry # rest) h = Inl HashTableCorrupted)
   \<and> (distinct (map (\<lambda>e. table_key h (key e)) (elems h))
        \<and> distinct (map (\<lambda>e. table_key h (key e)) es)
        \<and> (\<forall>e \<in> set es. hash_search_FIND h (key e) \<noteq> None) \<longrightarrow>
      flush_loop es h =
        Inr (h\<lparr>elems := filter (\<lambda>x. table_key h (key x) \<notin> (\<lambda>e. table_key h (key e)) ` set es)
                          (elems h)\<rparr>))
   \<and> (ShippableCacheHash s = Some h \<longrightarrow>
      InvalidateShippableCacheCallback s = Inr (s\<lparr>ShippableCacheHash := Some (h\<lparr>elems := []\<rparr>)\<rparr>))"
proof (intro conjI impI)
  assume a: "flush_loop pre h = Inr h' \<and> hash_search_FIND h' (key entry) = None"
  then show "hash_search_REMOVE h' (key entry) = None"
    by (simp add: REMOVE_None)
  with a show "flush_loop (pre @ entry # rest) h = Inl HashTableCorrupted"
    by (simp add: flush_loop_append)
next
  assume "distinct (map (\<lambda>e. table_key h (key e)) (elems h))
        \<and> distinct (map (\<lambda>e. table_key h (key e)) es)
        \<and> (\<forall>e \<in> set es. hash_search_FIND h (key e) \<noteq> None)"
  then show "flush_loop es h =
        Inr (h\<lparr>elems := filter (\<lambda>x. table_key h (key x) \<notin> (\<lambda>e. table_key h (key e)) ` set es)
                          (elems h)\<rparr>)"
    by (simp add: flush_loop_wf)
next
  assume "ShippableCacheHash s = Some h"
  then show "InvalidateShippableCacheCallback s
               = Inr (s\<lparr>ShippableCacheHash := Some (h\<lparr>elems := []\<rparr>)\<rparr>)"
    by (rule Invalidate_table)
qed

theorem flush_consistency_check_witness:
  "flush_loop [\<lparr>key = [16, 64], shippable = True\<rparr>]
       (cache_table [\<lparr>key = [16, 64], shippable = True\<rparr>]) = Inr (cache_table [])
   \<and> hash_search_FIND (cache_table []) (key \<lparr>key = [17, 64], shippable = False\<rparr>) = None
   \<and> flush_loop ([\<lparr>key = [16, 64], shippable = True\<rparr>] @ \<lparr>key = [17, 64], shippable = False\<rparr> # [])
        (cache_table [\<lparr>key = [16, 64], shippable = True\<rparr>]) = Inl HashTableCorrupted
   \<and> hash_search_FIND (cache_table [\<lparr>key = [16, 64], shippable = True\<rparr>,
                                     \<lparr>key = [17, 64], shippable = False\<rparr>]) [16, 64] \<noteq> None
   \<and> hash_search_FIND (cache_table [\<lparr>key = [16, 64], shippable = True\<rparr>,
                                     \<lparr>key = [17, 64], shippable = False\<rparr>]) [17, 64] \<noteq> None
   \<and> flush_loop [\<lparr>key = [16, 64], shippable = True\<rparr>, \<lparr>key = [17, 64], shippable = False\<rparr>]
        (cache_table [\<lparr>key = [16, 64], shippable = True\<rparr>,
                      \<lparr>key = [17, 64], shippable = False\<rparr>]) = Inr (cache_table [])
   \<and> InvalidateShippableCacheCallback warm_backend
        = Inr (warm_backend\<lparr>ShippableCacheHash := Some (cache_table [])\<rparr>)"
proof -
  let ?a = "\<lparr>key = [16, 64], shippable = True\<rparr>"
  let ?b = "\<lparr>key = [17, 64], shippable = False\<rparr>"
  note bad = flush_consistency_check
      [of "[?a]" "cache_table [?a]" "cache_table []" ?b "[]" "[]" fresh_backend]
  note good = flush_consistency_check
      [of "[]" "cache_table [?a, ?b]" "cache_table []" ?a "[]" "[?a, ?b]" warm_backend]
  have tk: "table_key (cache_table es) [16, 64] = [16, 64]"
      "table_key (cache_table es) [17, 64] = [17, 64]" for es
    by (simp_all add: cache_eval)
  have p1: "flush_loop [?a] (cache_table [?a]) = Inr (cache_table [])"
    using flush_loop_self [of "cache_table [?a]"] by (simp add: cache_table_def)
  have p2: "hash_search_FIND (cache_table []) (key ?b) = None"
    by (simp add: hash_search_FIND_def cache_table_def)
  have r1: "flush_loop ([?a] @ ?b # []) (cache_table [?a]) = Inl HashTableCorrupted"
    using bad p1 p2 by blast
  have el: "elems (cache_table [?a, ?b]) = [?a, ?b]"
    by (simp add: cache_table_def)
  have d: "distinct (map (\<lambda>e. table_key (cache_table [?a, ?b]) (key e))
             (elems (cache_table [?a, ?b])))"
    by (simp add: el tk)
  have d2: "distinct (map (\<lambda>e. table_key (cache_table [?a, ?b]) (key e)) [?a, ?b])"
    by (simp add: tk)
  have fa: "hash_search_FIND (cache_table [?a, ?b]) [16, 64] \<noteq> None"
    and fb: "hash_search_FIND (cache_table [?a, ?b]) [17, 64] \<noteq> None"
    by (simp_all add: hash_search_FIND_def el tk)
  have f: "\<forall>e \<in> set [?a, ?b]. hash_search_FIND (cache_table [?a, ?b]) (key e) \<noteq> None"
    using fa fb by simp
  have "flush_loop [?a, ?b] (cache_table [?a, ?b]) =
      Inr ((cache_table [?a, ?b])\<lparr>elems :=
        filter (\<lambda>x. table_key (cache_table [?a, ?b]) (key x)
                      \<notin> (\<lambda>e. table_key (cache_table [?a, ?b]) (key e)) ` set [?a, ?b])
          (elems (cache_table [?a, ?b]))\<rparr>)"
    using good d d2 f by blast
  then have r2: "flush_loop [?a, ?b] (cache_table [?a, ?b]) = Inr (cache_table [])"
    by (simp add: el tk cache_table_flushed)
  have w: "ShippableCacheHash warm_backend = Some (cache_table [?a, ?b])"
    by (simp add: warm_backend_def)
  have "InvalidateShippableCacheCallback warm_backend
        = Inr (warm_backend\<lparr>ShippableCacheHash := Some ((cache_table [?a, ?b])\<lparr>elems := []\<rparr>)\<rparr>)"
    using good w by blast
  then have r3: "InvalidateShippableCacheCallback warm_backend
        = Inr (warm_backend\<lparr>ShippableCacheHash := Some (cache_table [])\<rparr>)"
    by (simp only: cache_table_flushed)
  show ?thesis
    by (intro conjI p1 p2 r1 fa fb r2 r3)
qed

section \<open>Properties of the parser\<close>

lemma set_first_seen: "set (first_seen xs) = set xs"
  by (induction xs) auto

lemma distinct_first_seen: "distinct (first_seen xs)"
  by (induction xs) (auto simp: set_first_seen)

lemma first_seen_snoc:
  "first_seen (xs @ [x]) = (if x \<in> set xs then first_seen xs else first_seen xs @ [x])"
  by (induction xs) auto

lemma extension_loop_validate:
  "extension_loop get toks None =
     (case List.find (\<lambda>t. get t = InvalidOid) toks of
        None \<Rightarrow> (Inr (), None)
      | Some bad \<Rightarrow> (Inl (ExtensionNotInstalled bad), None))"
  by (induction toks) (auto simp: Let_def)

lemma extension_loop_ok:
  "\<forall>t \<in> set toks. get t \<noteq> InvalidOid \<Longrightarrow>
     extension_loop get toks (Some acc) =
       (Inr (), Some (acc @ filter (\<lambda>y. y \<notin> set acc) (first_seen (map get toks))))"
proof (induction toks arbitrary: acc)
  case Nil
  show ?case by simp
next
  case (Cons t toks)
  let ?fs = "first_seen (map get toks)"
  have IH: "\<And>acc. extension_loop get toks (Some acc) =
       (Inr (), Some (acc @ filter (\<lambda>y. y \<notin> set acc) ?fs))"
    using Cons by simp
  have ok: "get t \<noteq> InvalidOid" using Cons.prems by simp
  show ?case
  proof (cases "get t \<in> set acc")
    case True
    have "filter (\<lambda>y. y \<notin> set acc) (filter (\<lambda>y. y \<noteq> get t) ?fs)
          = filter (\<lambda>y. y \<notin> set acc) ?fs"
      using True by (auto intro: filter_cong)
    with True ok show ?thesis
      by (simp add: Let_def list_member_oid_set IH)
  next
    case False
    have "filter (\<lambda>y. y \<notin> set (lappend_oid acc (get t))) ?fs
          = filter (\<lambda>y. y \<notin> set acc) (filter (\<lambda>y. y \<noteq> get t) ?fs)"
      by (auto simp: lappend_oid_def intro: filter_cong)
    with False ok show ?thesis
      by (simp add: Let_def list_member_oid_set IH lappend_oid_def)
  qed
qed

lemma extension_loop_split:
  "extension_loop get (pre @ post) out =
     (case extension_loop get pre out of
        (Inl e, out') \<Rightarrow> (Inl e, out')
      | (Inr u, out') \<Rightarrow> extension_loop get post out')"
  by (induction pre arbitrary: out) (auto simp: Let_def split: option.splits)

lemma find_bad_split:
  "List.find (\<lambda>t. get t = InvalidOid) toks = Some bad \<Longrightarrow>
     toks = takeWhile (\<lambda>t. get t \<noteq> InvalidOid) toks @ bad # tl (dropWhile (\<lambda>t. get t \<noteq> InvalidOid) toks)
     \<and> get bad = InvalidOid"
  by (induction toks) (auto split: if_splits)

lemma extension_loop_bad:
  assumes "List.find (\<lambda>t. get t = InvalidOid) toks = Some bad"
  shows "extension_loop get toks (Some acc) =
           (Inl (ExtensionNotInstalled bad),
            Some (acc @ filter (\<lambda>y. y \<notin> set acc)
                    (first_seen (map get (takeWhile (\<lambda>t. get t \<noteq> InvalidOid) toks)))))"
proof -
  let ?pre = "takeWhile (\<lambda>t. get t \<noteq> InvalidOid) toks"
  let ?post = "tl (dropWhile (\<lambda>t. get t \<noteq> InvalidOid) toks)"
  have sp: "toks = ?pre @ bad # ?post" and bad: "get bad = InvalidOid"
    using find_bad_split [OF assms] by simp_all
  have pre: "\<forall>t \<in> set ?pre. get t \<noteq> InvalidOid"
    by (auto dest: set_takeWhileD)
  have "extension_loop get toks (Some acc) = extension_loop get (?pre @ bad # ?post) (Some acc)"
    using sp by simp
  also have "\<dots> = (Inl (ExtensionNotInstalled bad),
            Some (acc @ filter (\<lambda>y. y \<notin> set acc) (first_seen (map get ?pre))))"
    unfolding extension_loop_split
    by (simp add: extension_loop_ok [OF pre] bad Let_def)
  finally show ?thesis .
qed

lemma comma_split_example_ok:
  "comma_split ''ext_a,ext_b,ext_a'' = Some [''ext_a'', ''ext_b'', ''ext_a'']"
  by (simp add: comma_split_def)

lemma comma_split_example_bad:
  "comma_split ''ext_a,nonexistent_ext'' = Some [''ext_a'', ''nonexistent_ext'']"
  by (simp add: comma_split_def)

text \<open>
  Claim C6. When the splitter accepts the string and every token names an installed
  extension, \<open>extractExtensionList\<close>, called with an empty list, returns true and leaves
  in the caller's list the identifiers of the tokens, each once, in the order in which
  each first occurs.
\<close>

theorem extractExtensionList_dedup_order:
  assumes "split raw = Some toks" and "\<forall>t \<in> set toks. get_oid t \<noteq> InvalidOid"
  shows "extractExtensionList split get_oid raw (Some [])
           = (Inr True, Some (first_seen (map get_oid toks)))
         \<and> distinct (first_seen (map get_oid toks))
         \<and> set (first_seen (map get_oid toks)) = get_oid ` set toks"
  using assms
  by (simp add: extractExtensionList_def extension_loop_ok distinct_first_seen set_first_seen)

theorem extractExtensionList_dedup_order_witness:
  "comma_split ''ext_a,ext_b,ext_a'' = Some [''ext_a'', ''ext_b'', ''ext_a'']
   \<and> installed_extensions ''ext_a'' \<noteq> InvalidOid
   \<and> installed_extensions ''ext_b'' \<noteq> InvalidOid
   \<and> extractExtensionList comma_split installed_extensions ''ext_a,ext_b,ext_a'' (Some [])
       = (Inr True, Some [16384, 16385])
   \<and> length [16384, 16385 :: Oid] = 2"
proof -
  have a: "installed_extensions ''ext_a'' \<noteq> InvalidOid"
    and b: "installed_extensions ''ext_b'' \<noteq> InvalidOid"
    by (simp_all add: installed_extensions_def InvalidOid_def)
  have h2: "\<forall>t \<in> set [''ext_a'', ''ext_b'', ''ext_a'']. installed_extensions t \<noteq> InvalidOid"
    using a b by simp
  note inst = extractExtensionList_dedup_order
      [where split = comma_split and get_oid = installed_extensions,
       OF comma_split_example_ok h2]
  have fs: "first_seen (map installed_extensions [''ext_a'', ''ext_b'', ''ext_a''])
              = [16384, 16385]"
    by (simp add: installed_extensions_def)
  have r: "extractExtensionList comma_split installed_extensions ''ext_a,ext_b,ext_a'' (Some [])
       = (Inr True, Some [16384, 16385])"
    using inst by (simp only: fs)
  show ?thesis
    by (intro conjI comma_split_example_ok a b r) simp
qed

text \<open>
  Claim C7, as stated, fails: on \<open>ext_a,nonexistent_ext\<close> the error names
  \<open>nonexistent_ext\<close>, but the caller's list, empty before the call, holds the identifier
  of \<open>ext_a\<close> when the error is raised.
\<close>

theorem extractExtensionList_partial_list_counterexample:
  "extractExtensionList comma_split installed_extensions ''ext_a,nonexistent_ext'' (Some [])
     = (Inl (ExtensionNotInstalled ''nonexistent_ext''), Some [16384])
   \<and> snd (extractExtensionList comma_split installed_extensions ''ext_a,nonexistent_ext''
            (Some [])) \<noteq> Some []"
  by (simp add: comma_split_def extractExtensionList_def installed_extensions_def
        InvalidOid_def lappend_oid_def)

text \<open>
  Claim C7, amended. When the splitter accepts the string and some token names no
  installed extension, \<open>extractExtensionList\<close> raises the error that names the first such
  token, whatever list the caller passed, and returns nothing. With a NULL list pointer
  nothing is written. Otherwise the caller's list holds, when the error is raised, its
  former elements followed by the new identifiers of the tokens before the offending
  one, each once in first-seen order.
\<close>

theorem extractExtensionList_unknown_extension:
  assumes "split raw = Some toks"
    and "List.find (\<lambda>t. get_oid t = InvalidOid) toks = Some bad"
  shows "fst (extractExtensionList split get_oid raw out) = Inl (ExtensionNotInstalled bad)
         \<and> snd (extractExtensionList split get_oid raw None) = None
         \<and> snd (extractExtensionList split get_oid raw (Some acc))
             = Some (acc @ filter (\<lambda>y. y \<notin> set acc)
                  (first_seen (map get_oid (takeWhile (\<lambda>t. get_oid t \<noteq> InvalidOid) toks))))"
proof -
  have "fst (extractExtensionList split get_oid raw out) = Inl (ExtensionNotInstalled bad)"
    using assms
    by (cases out)
       (simp_all add: extractExtensionList_def extension_loop_validate extension_loop_bad)
  then show ?thesis
    using assms
    by (simp add: extractExtensionList_def extension_loop_validate extension_loop_bad)
qed

theorem extractExtensionList_unknown_extension_witness:
  "comma_split ''ext_a,nonexistent_ext'' = Some [''ext_a'', ''nonexistent_ext'']
   \<and> List.find (\<lambda>t. installed_extensions t = InvalidOid) [''ext_a'', ''nonexistent_ext'']
       = Some ''nonexistent_ext''
   \<and> fst (extractExtensionList comma_split installed_extensions ''ext_a,nonexistent_ext''
            (Some [])) = Inl (ExtensionNotInstalled ''nonexistent_ext'')
   \<and> snd (extractExtensionList comma_split installed_extensions ''ext_a,nonexistent_ext''
            None) = None
   \<and> snd (extractExtensionList comma_split installed_extensions ''ext_a,nonexistent_ext''
            (Some [])) = Some [16384]"
proof -
  have h2: "List.find (\<lambda>t. installed_extensions t = InvalidOid)
              [''ext_a'', ''nonexistent_ext''] = Some ''nonexistent_ext''"
    by (simp add: installed_extensions_def InvalidOid_def)
  note inst = extractExtensionList_unknown_extension
      [where split = comma_split and get_oid = installed_extensions
         and out = "Some []" and acc = "[]",
       OF comma_split_example_bad h2]
  have pre: "first_seen (map installed_extensions
               (takeWhile (\<lambda>t. installed_extensions t \<noteq> InvalidOid)
                  [''ext_a'', ''nonexistent_ext''])) = [16384]"
    by (simp add: installed_extensions_def InvalidOid_def)
  have r1: "fst (extractExtensionList comma_split installed_extensions
              ''ext_a,nonexistent_ext'' (Some [])) = Inl (ExtensionNotInstalled ''nonexistent_ext'')"
    using inst by blast
  have r2: "snd (extractExtensionList comma_split installed_extensions
              ''ext_a,nonexistent_ext'' None) = None"
    using inst by blast
  have "snd (extractExtensionList comma_split installed_extensions
              ''ext_a,nonexistent_ext'' (Some []))
          = Some ([] @ filter (\<lambda>y. y \<notin> set []) (first_seen (map installed_extensions
               (takeWhile (\<lambda>t. installed_extensions t \<noteq> InvalidOid)
                  [''ext_a'', ''nonexistent_ext'']))))"
    using inst by blast
  then have r3: "snd (extractExtensionList comma_split installed_extensions
              ''ext_a,nonexistent_ext'' (Some [])) = Some [16384]"
    by (simp only: pre) simp
  show ?thesis
    by (intro conjI comma_split_example_bad h2 r1 r2 r3)
qed

end
